theory Spec2Isabelle
  imports Main "HOL-Library.Word" "HOL-Library.Signed_Division"
begin

section \<open>Embedding of main.cpp\<close>

text \<open>
  Sizes, indices and counts (\<open>size_t\<close>) are natural numbers: no operation on them in
  \<open>custom_parallel_count\<close> can exceed the length of the sequence. The value that
  \<open>thread::hardware_concurrency()\<close> reports is an \<open>unsigned\<close>, a 32-bit word, and is a
  parameter of every function that reads it. Undefined behaviour of the C++ program
  (a division by zero, an iterator moved past the end, an index past a vector's end,
  a signed overflow) is an error value.
\<close>

datatype error = DivisionByZero | IteratorOutOfRange | IndexOutOfRange | SignedOverflow

subsection \<open>Predicates and the sequential count\<close>

definition is_greater_than_500k :: "int \<Rightarrow> bool" where
  "is_greater_than_500k x = (x > 500000)"

definition is_divisible_by_7 :: "int \<Rightarrow> bool" where
  \<comment> \<open>\<open>%\<close> of C++ truncates towards zero: \<open>smod\<close>.\<close>
  "is_divisible_by_7 x = (x smod 7 = 0)"

text \<open>\<open>std::count_if\<close> over a whole sequence, left to right.\<close>

primrec count_if :: "'a list \<Rightarrow> ('a \<Rightarrow> bool) \<Rightarrow> nat" where
  "count_if [] predicate = 0"
| "count_if (x # xs) predicate =
     (if predicate x then Suc (count_if xs predicate) else count_if xs predicate)"

text \<open>
  An iterator into the sequence is its index. The elements of the iterator range
  \<open>[first_it, last_it)\<close>:
\<close>

definition block :: "'a list \<Rightarrow> nat \<Rightarrow> nat \<Rightarrow> 'a list" where
  "block xs first_it last_it = take (last_it - first_it) (drop first_it xs)"

subsection \<open>custom_parallel_count\<close>

text \<open>
  What the lambda of one worker thread captures: its index \<open>i\<close> (the slot of
  \<open>partial_results\<close> it writes) and the iterators \<open>block_start\<close> and \<open>block_end\<close>.
\<close>

datatype worker = Worker (captured_i: nat) (captured_start: nat) (captured_end: nat)

text \<open>
  The loop of lines 39 to 45. Its state is \<open>i\<close>, \<open>block_start\<close> and the vector
  \<open>threads\<close>; \<open>total_size\<close> stands for \<open>end\<close>. \<open>next(block_start, block_size)\<close> past the end
  of the sequence is undefined: the loop stops there with the threads made so far.
\<close>

function spawn_loop ::
  "nat \<Rightarrow> nat \<Rightarrow> nat \<Rightarrow> nat \<Rightarrow> nat \<Rightarrow> worker list \<Rightarrow> worker list \<times> error option" where
  "spawn_loop total_size num_threads block_size i block_start threads =
     (if i < num_threads then
        (if i = num_threads - 1 then
           spawn_loop total_size num_threads block_size (i + 1) total_size
             (threads @ [Worker i block_start total_size])
         else if total_size < block_start + block_size then (threads, Some IteratorOutOfRange)
         else
           spawn_loop total_size num_threads block_size (i + 1) (block_start + block_size)
             (threads @ [Worker i block_start (block_start + block_size)]))
      else (threads, None))"
  by pat_completeness auto
termination
  by (relation "measure (\<lambda>(total_size, num_threads, block_size, i, block_start, threads). num_threads - i)")
    auto

declare spawn_loop.simps [simp del]

text \<open>
  The body of one worker: count its block, write its slot. A slot past the end of
  \<open>partial_results\<close> is undefined behaviour.
\<close>

definition run_worker ::
  "'a list \<Rightarrow> ('a \<Rightarrow> bool) \<Rightarrow> worker \<Rightarrow> nat list \<Rightarrow> error + nat list" where
  "run_worker xs predicate w partial_results =
     (if captured_i w < length partial_results
      then Inr (partial_results
                  [captured_i w := count_if (block xs (captured_start w) (captured_end w)) predicate])
      else Inl IndexOutOfRange)"

text \<open>
  The state of \<open>partial_results\<close> once every thread is joined (line 47), the workers
  having run in the order of the list (any other order gives the same state, see
  \<open>join_all_any_order\<close> below).
\<close>

fun join_all ::
  "'a list \<Rightarrow> ('a \<Rightarrow> bool) \<Rightarrow> worker list \<Rightarrow> nat list \<Rightarrow> error + nat list" where
  "join_all xs predicate [] partial_results = Inr partial_results"
| "join_all xs predicate (w # ws) partial_results =
     (case run_worker xs predicate w partial_results of
        Inl e \<Rightarrow> Inl e
      | Inr partial_results' \<Rightarrow> join_all xs predicate ws partial_results')"

text \<open>
  \<open>custom_parallel_count\<close> returns the threads it created, in order, and its outcome.
  The requested \<open>num_threads\<close> is an \<open>int\<close>; past the test of line 29 it is at least 2,
  so its conversion to \<open>size_t\<close> keeps its value, and the minimum of line 32, at most
  \<open>num_threads\<close>, fits the \<open>int\<close> it is stored in.
\<close>

definition custom_parallel_count ::
  "32 word \<Rightarrow> 'a list \<Rightarrow> ('a \<Rightarrow> bool) \<Rightarrow> int \<Rightarrow> worker list \<times> (error + nat)" where
  "custom_parallel_count hardware_concurrency xs predicate num_threads =
     (let total_size = length xs in
      if total_size = 0 \<or> num_threads \<le> 1 then ([], Inr (count_if xs predicate))
      else
        let clamped = min (nat num_threads) (unat hardware_concurrency) in
        if clamped = 0 then ([], Inl DivisionByZero)
        else
          let block_size = total_size div clamped in
          case spawn_loop total_size clamped block_size 0 0 [] of
            (threads, Some e) \<Rightarrow> (threads, Inl e)
          | (threads, None) \<Rightarrow>
              (case join_all xs predicate threads (replicate clamped 0) of
                 Inl e \<Rightarrow> (threads, Inl e)
               | Inr partial_results \<Rightarrow> (threads, Inr (sum_list partial_results))))"

subsection \<open>run_experiment\<close>

text \<open>
  \<open>measure_time_ms\<close> reads the clock, which is outside the program: \<open>clock k\<close> is the
  \<open>long long\<close> measured around the call with \<open>num_threads = k\<close>. The four baseline
  measurements of lines 64 to 67 call the library's \<open>count_if\<close> and only print.
\<close>

definition LLONG_MAX :: "64 word" where
  "LLONG_MAX = 0x7FFFFFFFFFFFFFFF"

text \<open>
  The loop of lines 81 to 90. Its state is \<open>num_threads\<close>, \<open>best_threads\<close>,
  \<open>best_time\<close> and the lines \<open>Threads = k -> t ms\<close> printed so far. A call of
  \<open>custom_parallel_count\<close> that faults ends the run. \<open>2 * hardware_threads\<close> is
  computed in \<open>int\<close>; \<open>run_experiment\<close> checks its range once, before the loop.
  That bound is even, so \<open>++num_threads\<close> stays in range.
\<close>

function sweep_loop ::
  "32 word \<Rightarrow> int list \<Rightarrow> (int \<Rightarrow> bool) \<Rightarrow> (int \<Rightarrow> 64 word) \<Rightarrow> int \<Rightarrow>
     int \<Rightarrow> int \<Rightarrow> 64 word \<Rightarrow> (int \<times> 64 word) list \<Rightarrow>
     error + (int \<times> 64 word \<times> (int \<times> 64 word) list)" where
  "sweep_loop hw numbers predicate clock hardware_threads num_threads best_threads best_time printed =
     (if num_threads \<le> 2 * hardware_threads then
        (case snd (custom_parallel_count hw numbers predicate num_threads) of
           Inl e \<Rightarrow> Inl e
         | Inr result \<Rightarrow>
             (let time_current = clock num_threads in
              if time_current <s best_time
              then sweep_loop hw numbers predicate clock hardware_threads (num_threads + 1)
                     num_threads time_current (printed @ [(num_threads, time_current)])
              else sweep_loop hw numbers predicate clock hardware_threads (num_threads + 1)
                     best_threads best_time (printed @ [(num_threads, time_current)])))
      else Inr (best_threads, best_time, printed))"
  by pat_completeness auto
termination
  by (relation "measure (\<lambda>(hw, numbers, predicate, clock, hardware_threads, num_threads, rest).
                  nat (2 * hardware_threads + 1 - num_threads))")
    auto

declare sweep_loop.simps [simp del]

record experiment_report =
  label :: string
  sweep :: "(int \<times> 64 word) list"
  best_threads :: int
  hardware_threads :: int

text \<open>
  Line 75 stores the \<open>unsigned\<close> in an \<open>int\<close>: \<open>sint\<close>. Line 76 replaces 0 by 4.
\<close>

definition run_experiment ::
  "32 word \<Rightarrow> int list \<Rightarrow> string \<Rightarrow> (int \<Rightarrow> bool) \<Rightarrow> (int \<Rightarrow> 64 word) \<Rightarrow>
     error + experiment_report" where
  "run_experiment hw numbers lbl predicate clock =
     (let detected = sint hw;
          hardware_threads = (if detected = 0 then 4 else detected)
      in if 2 * hardware_threads < - (2 ^ 31) \<or> 2 ^ 31 \<le> 2 * hardware_threads
         then Inl SignedOverflow
         else
           (case sweep_loop hw numbers predicate clock hardware_threads 1 1 LLONG_MAX [] of
              Inl e \<Rightarrow> Inl e
            | Inr (best, best_time, printed) \<Rightarrow>
                Inr \<lparr>label = lbl, sweep = printed, best_threads = best,
                     hardware_threads = hardware_threads\<rparr>))"

subsection \<open>generate_random_vector\<close>

text \<open>
  \<open>mt19937\<close> and \<open>uniform_int_distribution\<close> are the library's. Their two steps are
  parameters, as relations on the engine's state: \<open>seed_engine seed rng\<close> for the
  constructor \<open>mt19937 rng(seed)\<close>, and \<open>draw rng v rng'\<close> for one call \<open>dist(rng)\<close>
  that returns \<open>v\<close> and leaves the engine in \<open>rng'\<close>.
\<close>

inductive fill_numbers :: "('s \<Rightarrow> int \<Rightarrow> 's \<Rightarrow> bool) \<Rightarrow> 's \<Rightarrow> nat \<Rightarrow> int list \<Rightarrow> bool"
  for draw :: "'s \<Rightarrow> int \<Rightarrow> 's \<Rightarrow> bool" where
  fill_done: "fill_numbers draw rng 0 []"
| fill_next: "draw rng v rng' \<Longrightarrow> fill_numbers draw rng' n vs \<Longrightarrow>
              fill_numbers draw rng (Suc n) (v # vs)"

code_pred fill_numbers .

inductive generate_random_vector ::
  "(32 word \<Rightarrow> 's \<Rightarrow> bool) \<Rightarrow> ('s \<Rightarrow> int \<Rightarrow> 's \<Rightarrow> bool) \<Rightarrow> nat \<Rightarrow> 32 word \<Rightarrow> int list \<Rightarrow> bool"
  for seed_engine :: "32 word \<Rightarrow> 's \<Rightarrow> bool" and draw :: "'s \<Rightarrow> int \<Rightarrow> 's \<Rightarrow> bool" where
  generated: "seed_engine seed rng \<Longrightarrow> fill_numbers draw rng sz numbers \<Longrightarrow>
              generate_random_vector seed_engine draw sz seed numbers"

code_pred generate_random_vector .

subsection \<open>main\<close>

text \<open>\<open>std::to_string\<close> of a \<open>size_t\<close>: its decimal digits.\<close>

function to_string :: "nat \<Rightarrow> string" where
  "to_string n =
     (if n < 10 then [char_of (48 + n)] else to_string (n div 10) @ [char_of (48 + n mod 10)])"
  by pat_completeness auto
termination
  by (relation "measure id") auto

declare to_string.simps [simp del]

text \<open>
  The loop of lines 107 to 111 over \<open>data_sizes\<close>. \<open>generate sz seed\<close> is the vector
  that \<open>generate_random_vector\<close> returns; the seed \<open>data_size + 100\<close> is converted to
  \<open>unsigned\<close>. \<open>clock\<close> gives each experiment, named by its label, its measurements.
  A fault in one experiment ends the run.
\<close>

fun main_loop ::
  "32 word \<Rightarrow> (nat \<Rightarrow> 32 word \<Rightarrow> int list) \<Rightarrow> (string \<Rightarrow> int \<Rightarrow> 64 word) \<Rightarrow> nat list \<Rightarrow>
     error + experiment_report list" where
  "main_loop hw generate clock [] = Inr []"
| "main_loop hw generate clock (data_size # rest) =
     (let numbers = generate data_size (of_nat (data_size + 100));
          label_gt = ''Dataset N='' @ to_string data_size @ '', x > 500000'';
          label_div = ''Dataset N='' @ to_string data_size @ '', x % 7 == 0''
      in case run_experiment hw numbers label_gt is_greater_than_500k (clock label_gt) of
           Inl e \<Rightarrow> Inl e
         | Inr first_report \<Rightarrow>
             (case run_experiment hw numbers label_div is_divisible_by_7 (clock label_div) of
                Inl e \<Rightarrow> Inl e
              | Inr second_report \<Rightarrow>
                  (case main_loop hw generate clock rest of
                     Inl e \<Rightarrow> Inl e
                   | Inr reports \<Rightarrow> Inr (first_report # second_report # reports))))"

definition data_sizes :: "nat list" where
  "data_sizes = [100000, 1000000, 5000000]"

definition main ::
  "32 word \<Rightarrow> (nat \<Rightarrow> 32 word \<Rightarrow> int list) \<Rightarrow> (string \<Rightarrow> int \<Rightarrow> 64 word) \<Rightarrow>
     error + experiment_report list" where
  "main hw generate clock = main_loop hw generate clock data_sizes"

subsection \<open>Auxiliary notions for the proofs\<close>

text \<open>
  The worker that iteration \<open>j\<close> of the loop is expected to create, and the tally a
  worker commits.
\<close>

definition planned :: "nat \<Rightarrow> nat \<Rightarrow> nat \<Rightarrow> nat \<Rightarrow> worker" where
  "planned total_size num_threads block_size j =
     Worker j (j * block_size)
       (if j = num_threads - 1 then total_size else j * block_size + block_size)"

definition tally :: "'a list \<Rightarrow> ('a \<Rightarrow> bool) \<Rightarrow> worker \<Rightarrow> nat" where
  "tally xs predicate w = count_if (block xs (captured_start w) (captured_end w)) predicate"

text \<open>
  A small engine to run the generator on: the state is a number below 16, seeding
  stores the seed, and a draw steps the state and returns it.
\<close>

definition lcg_seed :: "32 word \<Rightarrow> nat \<Rightarrow> bool" where
  "lcg_seed seed rng = (rng = unat seed)"

definition lcg_draw :: "nat \<Rightarrow> int \<Rightarrow> nat \<Rightarrow> bool" where
  "lcg_draw rng v rng' = (rng' = (5 * rng + 1) mod 16 \<and> v = int rng')"

section \<open>The parallel counter\<close>

subsection \<open>Counting distributes over blocks\<close>

lemma count_if_append: "count_if (xs @ ys) p = count_if xs p + count_if ys p"
  by (induction xs) simp_all

lemma count_if_take_drop: "count_if (take n xs) p + count_if (drop n xs) p = count_if xs p"
  using count_if_append [of "take n xs" "drop n xs" p] by simp

lemma count_if_filter: "count_if xs p = length (filter p xs)"
  by (induction xs) simp_all

subsection \<open>The spawn loop creates the planned workers\<close>

lemma div_blocks_fit:
  assumes "0 < n"
  shows "(n - 1) * (m div n) \<le> (m::nat)"
proof -
  have "(n - 1) * (m div n) \<le> n * (m div n)" by (intro mult_le_mono1) simp
  also have "\<dots> \<le> m" by simp
  finally show ?thesis .
qed

lemma spawn_loop_closed:
  assumes "i < n" "(n - 1) * bs \<le> total_size"
  shows "spawn_loop total_size n bs i (i * bs) acc =
           (acc @ map (planned total_size n bs) [i..<n], None)"
  using assms
proof (induction "n - 1 - i" arbitrary: i acc)
  case 0
  then have i: "i = n - 1" by simp
  have "spawn_loop total_size n bs (i + 1) total_size (acc @ [Worker i (i * bs) total_size])
          = (acc @ [Worker i (i * bs) total_size], None)"
    using i "0.prems" by (subst spawn_loop.simps) simp
  moreover have "[i..<n] = [i]" using i "0.prems" by (simp add: upt_conv_Cons)
  ultimately show ?case
    using i "0.prems" by (subst spawn_loop.simps) (simp add: planned_def)
next
  case (Suc k)
  then have lt: "i < n - 1" and k: "k = n - 1 - (i + 1)" by simp_all
  have "(i + 1) * bs \<le> (n - 1) * bs" using lt by (intro mult_le_mono1) simp
  then have fits: "i * bs + bs \<le> total_size" using Suc.prems by simp
  have "spawn_loop total_size n bs (i + 1) ((i + 1) * bs) (acc @ [Worker i (i * bs) (i * bs + bs)])
          = ((acc @ [Worker i (i * bs) (i * bs + bs)]) @ map (planned total_size n bs) [i + 1..<n], None)"
    using lt Suc.prems by (intro Suc.hyps(1) [OF k]) simp_all
  then have ih:
    "spawn_loop total_size n bs (i + 1) (i * bs + bs) (acc @ [Worker i (i * bs) (i * bs + bs)])
       = (acc @ Worker i (i * bs) (i * bs + bs) # map (planned total_size n bs) [i + 1..<n], None)"
    by (simp add: add.commute)
  have "[i..<n] = i # [i + 1..<n]" using Suc.prems by (simp add: upt_conv_Cons)
  then show ?case
    using lt fits ih Suc.prems by (subst spawn_loop.simps) (simp add: planned_def)
qed

lemma spawn_loop_plan:
  assumes "0 < n"
  shows "spawn_loop total_size n (total_size div n) 0 0 [] =
           (map (planned total_size n (total_size div n)) [0..<n], None)"
  using spawn_loop_closed [OF assms div_blocks_fit [OF assms], where acc = "[]"] by simp

subsection \<open>Joining the workers fills every slot\<close>

lemma join_all_closed:
  assumes "length pr = n" "k \<le> n" "\<And>j. j < n \<Longrightarrow> captured_i (g j) = j"
  shows "join_all xs p (map g [k..<n]) pr =
           Inr (take k pr @ map (\<lambda>j. tally xs p (g j)) [k..<n])"
  using assms(1,2)
proof (induction "n - k" arbitrary: k pr)
  case 0
  then show ?case by simp
next
  case (Suc m)
  then have lt: "k < n" and m: "m = n - (k + 1)" by simp_all
  let ?pr = "pr[k := tally xs p (g k)]"
  have step: "run_worker xs p (g k) pr = Inr ?pr"
    using lt Suc.prems assms(3) by (simp add: run_worker_def tally_def)
  have "join_all xs p (map g [k + 1..<n]) ?pr
          = Inr (take (k + 1) ?pr @ map (\<lambda>j. tally xs p (g j)) [k + 1..<n])"
    using lt Suc.prems by (intro Suc.hyps(1) [OF m]) simp_all
  moreover have "take (k + 1) ?pr = take k pr @ [tally xs p (g k)]"
    using lt Suc.prems by (simp add: take_Suc_conv_app_nth)
  moreover have "[k..<n] = k # [k + 1..<n]" using lt by (simp add: upt_conv_Cons)
  ultimately show ?case using step by simp
qed

lemma sum_blocks:
  assumes "k < n" "(n - 1) * bs \<le> length xs"
  shows "sum_list (map (\<lambda>j. tally xs p (planned (length xs) n bs j)) [k..<n])
           = count_if (drop (k * bs) xs) p"
  using assms
proof (induction "n - 1 - k" arbitrary: k)
  case 0
  then have k: "k = n - 1" by simp
  then have "[k..<n] = [k]" using "0.prems" by (simp add: upt_conv_Cons)
  then show ?case using k by (simp add: tally_def planned_def block_def)
next
  case (Suc m)
  then have lt: "k < n - 1" and m: "m = n - 1 - (k + 1)" by simp_all
  have ih: "sum_list (map (\<lambda>j. tally xs p (planned (length xs) n bs j)) [k + 1..<n])
           = count_if (drop ((k + 1) * bs) xs) p"
    using lt Suc.prems by (intro Suc.hyps(1) [OF m]) simp_all
  have "drop ((k + 1) * bs) xs = drop bs (drop (k * bs) xs)" by (simp add: add.commute)
  then have "count_if (take bs (drop (k * bs) xs)) p + count_if (drop ((k + 1) * bs) xs) p
               = count_if (drop (k * bs) xs) p"
    by (simp only: count_if_take_drop)
  moreover have "tally xs p (planned (length xs) n bs k) = count_if (take bs (drop (k * bs) xs)) p"
    using lt by (simp add: tally_def planned_def block_def)
  moreover have "[k..<n] = k # [k + 1..<n]" using Suc.prems by (simp add: upt_conv_Cons)
  ultimately show ?case using ih by simp
qed

subsection \<open>The order in which the workers run does not matter\<close>

text \<open>
  The workers run concurrently. Each writes a slot of its own, so the state of
  \<open>partial_results\<close> after the join is the same for every order in which they run;
  \<open>join_all\<close> fixes the order of creation.
\<close>

lemma run_worker_length:
  "run_worker xs p w pr = Inr pr' \<Longrightarrow> length pr' = length pr"
  by (auto simp: run_worker_def split: if_splits)

lemma join_all_fault:
  assumes "\<exists>w\<in>set ws. \<not> captured_i w < length pr"
  shows "join_all xs p ws pr = Inl IndexOutOfRange"
  using assms
proof (induction ws arbitrary: pr)
  case Nil
  then show ?case by simp
next
  case (Cons w ws)
  show ?case
  proof (cases "captured_i w < length pr")
    case False
    then show ?thesis by (simp add: run_worker_def)
  next
    case True
    then have "\<exists>v\<in>set ws. \<not> captured_i v < length pr" using Cons.prems by auto
    then show ?thesis using True Cons.IH by (simp add: run_worker_def)
  qed
qed

lemma join_all_slots:
  assumes "distinct (map captured_i ws)" "\<forall>w\<in>set ws. captured_i w < length pr"
  shows "\<exists>pr'. join_all xs p ws pr = Inr pr' \<and> length pr' = length pr
           \<and> (\<forall>w\<in>set ws. pr' ! captured_i w = tally xs p w)
           \<and> (\<forall>i<length pr. i \<notin> captured_i ` set ws \<longrightarrow> pr' ! i = pr ! i)"
  using assms
proof (induction ws arbitrary: pr)
  case Nil
  then show ?case by simp
next
  case (Cons w ws)
  let ?pr = "pr[captured_i w := tally xs p w]"
  have step: "run_worker xs p w pr = Inr ?pr"
    using Cons.prems(2) by (simp add: run_worker_def tally_def)
  have "distinct (map captured_i ws)" "\<forall>v\<in>set ws. captured_i v < length ?pr"
    using Cons.prems by simp_all
  from Cons.IH [OF this] obtain pr' where
    r: "join_all xs p ws ?pr = Inr pr'" "length pr' = length pr"
       "\<forall>v\<in>set ws. pr' ! captured_i v = tally xs p v"
       "\<forall>i<length pr. i \<notin> captured_i ` set ws \<longrightarrow> pr' ! i = ?pr ! i"
    by auto
  have fresh: "captured_i w \<notin> captured_i ` set ws" using Cons.prems(1) by simp
  have "pr' ! captured_i w = tally xs p w"
    using r(4) fresh Cons.prems(2) by simp
  moreover have "pr' ! i = pr ! i" if "i < length pr" "i \<notin> captured_i ` set (w # ws)" for i
    using that r(4) by simp
  ultimately show ?case using step r(1,2,3) by simp
qed

lemma join_all_any_order:
  assumes "distinct (map captured_i ws)" "distinct (map captured_i ws')" "set ws' = set ws"
  shows "join_all xs p ws' pr = join_all xs p ws pr"
proof (cases "\<forall>w\<in>set ws. captured_i w < length pr")
  case False
  then show ?thesis using assms(3) by (simp add: join_all_fault)
next
  case True
  from join_all_slots [OF assms(1) True] obtain a where
    a: "join_all xs p ws pr = Inr a" "length a = length pr"
       "\<forall>w\<in>set ws. a ! captured_i w = tally xs p w"
       "\<forall>i<length pr. i \<notin> captured_i ` set ws \<longrightarrow> a ! i = pr ! i"
    by blast
  have "\<forall>w\<in>set ws'. captured_i w < length pr" using True assms(3) by simp
  from join_all_slots [OF assms(2) this] obtain b where
    b: "join_all xs p ws' pr = Inr b" "length b = length pr"
       "\<forall>w\<in>set ws'. b ! captured_i w = tally xs p w"
       "\<forall>i<length pr. i \<notin> captured_i ` set ws' \<longrightarrow> b ! i = pr ! i"
    by blast
  have "a ! i = b ! i" if "i < length pr" for i
  proof (cases "i \<in> captured_i ` set ws")
    case True
    then obtain w where "w \<in> set ws" "captured_i w = i" by auto
    then show ?thesis using a(3) b(3) assms(3) by auto
  next
    case False
    then show ?thesis using that a(4) b(4) assms(3) by simp
  qed
  then have "a = b" using a(2) b(2) by (intro nth_equalityI) simp_all
  then show ?thesis using a(1) b(1) by simp
qed

lemma planned_slots_distinct:
  "distinct (map captured_i (map (planned total_size n bs) [0..<n]))"
proof -
  have "map captured_i (map (planned total_size n bs) [0..<n]) = [0..<n]"
    by (simp add: planned_def comp_def)
  then show ?thesis by simp
qed

subsection \<open>The outcome of a call\<close>

lemma custom_parallel_count_degenerate:
  assumes "xs = [] \<or> K \<le> 1"
  shows "custom_parallel_count hw xs p K = ([], Inr (count_if xs p))"
  using assms by (auto simp: custom_parallel_count_def)

lemma custom_parallel_count_no_hardware:
  assumes "xs \<noteq> []" "2 \<le> K" "unat hw = 0"
  shows "custom_parallel_count hw xs p K = ([], Inl DivisionByZero)"
  using assms by (simp add: custom_parallel_count_def)

lemma custom_parallel_count_threads:
  assumes "xs \<noteq> []" "2 \<le> K" "0 < unat hw" "n = min (nat K) (unat hw)"
  shows "custom_parallel_count hw xs p K =
           (map (planned (length xs) n (length xs div n)) [0..<n], Inr (count_if xs p))"
proof -
  let ?bs = "length xs div n"
  let ?ws = "map (planned (length xs) n ?bs) [0..<n]"
  have n: "0 < n" using assms by simp
  have fit: "(n - 1) * ?bs \<le> length xs" using n by (rule div_blocks_fit)
  have sp: "spawn_loop (length xs) n ?bs 0 0 [] = (?ws, None)"
    using n by (rule spawn_loop_plan)
  have "join_all xs p ?ws (replicate n 0)
          = Inr (take 0 (replicate n 0) @ map (\<lambda>j. tally xs p (planned (length xs) n ?bs j)) [0..<n])"
    by (rule join_all_closed) (simp_all add: planned_def)
  then have jn: "join_all xs p ?ws (replicate n 0)
          = Inr (map (\<lambda>j. tally xs p (planned (length xs) n ?bs j)) [0..<n])"
    by simp
  have sm: "sum_list (map (\<lambda>j. tally xs p (planned (length xs) n ?bs j)) [0..<n]) = count_if xs p"
    using sum_blocks [OF n fit, where p = p] by simp
  show ?thesis
    using assms n sp jn sm by (simp add: custom_parallel_count_def Let_def)
qed

text \<open>
  On a machine that reports at least one hardware thread, every call returns the
  sequential count.
\<close>

lemma custom_parallel_count_returns:
  assumes "0 < unat hw"
  shows "snd (custom_parallel_count hw xs p K) = Inr (count_if xs p)"
proof (cases "xs = [] \<or> K \<le> 1")
  case True
  then show ?thesis by (simp add: custom_parallel_count_degenerate)
next
  case False
  then have "xs \<noteq> []" "2 \<le> K" by simp_all
  then show ?thesis using assms by (simp add: custom_parallel_count_threads)
qed

subsection \<open>Claims about custom_parallel_count\<close>

text \<open>
  The loop alone, for every length \<open>L\<close> and every thread count \<open>T \<ge> 1\<close>, run with
  the block size \<open>L div T\<close>: it ends without a fault with \<open>T\<close> workers whose blocks lie
  one after the other from 0 to \<open>L\<close>.
\<close>

lemma spawn_loop_partition:
  assumes "1 \<le> T"
  shows "\<exists>ws. spawn_loop L T (L div T) 0 0 [] = (ws, None)
           \<and> length ws = T
           \<and> (\<forall>i < T - 1. ws ! i = Worker i (i * (L div T)) (i * (L div T) + L div T))
           \<and> ws ! (T - 1) = Worker (T - 1) ((T - 1) * (L div T)) L
           \<and> concat (map (\<lambda>w. [captured_start w..<captured_end w]) ws) = [0..<L]"
proof -
  let ?bs = "L div T"
  let ?ws = "map (planned L T ?bs) [0..<T]"
  have T: "0 < T" using assms by simp
  have fit: "(T - 1) * ?bs \<le> L" using T by (rule div_blocks_fit)
  have cover: "concat (map (\<lambda>w. [captured_start w..<captured_end w]) (map (planned L T ?bs) [k..<T]))
                 = [k * ?bs..<L]" if "k < T" for k
    using that
  proof (induction "T - 1 - k" arbitrary: k)
    case 0
    then have "[k..<T] = [k]" and "k = T - 1" by (simp_all add: upt_conv_Cons)
    then show ?case by (simp add: planned_def)
  next
    case (Suc m)
    then have lt: "k < T - 1" and m: "m = T - 1 - (k + 1)" by simp_all
    have "(k + 1) * ?bs \<le> (T - 1) * ?bs" using lt by (intro mult_le_mono1) simp
    then have le: "k * ?bs + ?bs \<le> L" using fit by simp
    have ih: "concat (map (\<lambda>w. [captured_start w..<captured_end w]) (map (planned L T ?bs) [k + 1..<T]))
                 = [(k + 1) * ?bs..<L]"
      using lt by (intro Suc.hyps(1) [OF m]) simp
    have "[k * ?bs..<k * ?bs + ?bs] @ [(k + 1) * ?bs..<L] = [k * ?bs..<L]"
      using le upt_add_eq_append [of "k * ?bs" "k * ?bs + ?bs" "L - (k * ?bs + ?bs)"]
      by (simp add: add.commute)
    moreover have "[k..<T] = k # [k + 1..<T]" using Suc.prems by (simp add: upt_conv_Cons)
    ultimately show ?case using ih lt by (simp add: planned_def)
  qed
  have "spawn_loop L T ?bs 0 0 [] = (?ws, None)" using T by (rule spawn_loop_plan)
  moreover have "length ?ws = T" by simp
  moreover have "\<forall>i < T - 1. ?ws ! i = Worker i (i * ?bs) (i * ?bs + ?bs)"
    by (simp add: planned_def)
  moreover have "?ws ! (T - 1) = Worker (T - 1) ((T - 1) * ?bs) L"
    using T by (simp add: planned_def)
  moreover have "concat (map (\<lambda>w. [captured_start w..<captured_end w]) ?ws) = [0..<L]"
    using cover [OF T] by simp
  ultimately show ?thesis by blast
qed

text \<open>
  C2. In a call of \<open>custom_parallel_count\<close> on a sequence of length \<open>L\<close> that gets
  past line 30, with the effective thread count \<open>T = min(K, hardware concurrency)\<close>
  at least 1, the call creates \<open>T\<close> workers: each of the first \<open>T - 1\<close> blocks starts
  where the one before ends and has \<open>L div T\<close> elements, the last block runs from
  there to \<open>L\<close>, and the blocks' index ranges, one after the other, are exactly
  \<open>0, ..., L - 1\<close>: no index is left out and none is covered twice.
\<close>

theorem block_partition:
  assumes "xs \<noteq> []" "2 \<le> K" "T = min (nat K) (unat hw)" "1 \<le> T" "L = length xs"
  shows "length (fst (custom_parallel_count hw xs p K)) = T
         \<and> (\<forall>i < T - 1. fst (custom_parallel_count hw xs p K) ! i
                            = Worker i (i * (L div T)) (i * (L div T) + L div T))
         \<and> fst (custom_parallel_count hw xs p K) ! (T - 1)
             = Worker (T - 1) ((T - 1) * (L div T)) L
         \<and> concat (map (\<lambda>w. [captured_start w..<captured_end w])
                      (fst (custom_parallel_count hw xs p K))) = [0..<L]"
proof -
  have hw: "0 < unat hw" using assms(3,4) by simp
  have T: "0 < T" using assms(4) by simp
  have made: "fst (custom_parallel_count hw xs p K) = map (planned L T (L div T)) [0..<T]"
    using custom_parallel_count_threads [OF assms(1,2) hw assms(3), where p = p] assms(5)
    by simp
  obtain ws where ws: "spawn_loop L T (L div T) 0 0 [] = (ws, None)" "length ws = T"
    "\<forall>i < T - 1. ws ! i = Worker i (i * (L div T)) (i * (L div T) + L div T)"
    "ws ! (T - 1) = Worker (T - 1) ((T - 1) * (L div T)) L"
    "concat (map (\<lambda>w. [captured_start w..<captured_end w]) ws) = [0..<L]"
    using spawn_loop_partition [OF assms(4), of L] by (elim exE conjE)
  have "ws = map (planned L T (L div T)) [0..<T]"
    using ws(1) spawn_loop_plan [OF T, of L] by simp
  then have "fst (custom_parallel_count hw xs p K) = ws" using made by simp
  then show ?thesis using ws(2,3,4,5) by simp
qed

theorem block_partition_witness:
  "([1, 2, 3, 4, 5, 6, 7, 8, 9, 10] :: int list) \<noteq> [] \<and> (2::int) \<le> 3
   \<and> (3::nat) = min (nat 3) (unat (4 :: 32 word)) \<and> (1::nat) \<le> 3
   \<and> (10::nat) = length ([1, 2, 3, 4, 5, 6, 7, 8, 9, 10] :: int list)
   \<and> fst (custom_parallel_count 4 [1, 2, 3, 4, 5, 6, 7, 8, 9, 10] is_divisible_by_7 3)
       = [Worker 0 0 3, Worker 1 3 6, Worker 2 6 10]
   \<and> length (fst (custom_parallel_count 4 [1, 2, 3, 4, 5, 6, 7, 8, 9, 10] is_divisible_by_7 3)) = 3
   \<and> concat (map (\<lambda>w. [captured_start w..<captured_end w])
         (fst (custom_parallel_count 4 [1, 2, 3, 4, 5, 6, 7, 8, 9, 10] is_divisible_by_7 3)))
       = [0..<10]"
proof -
  have run: "custom_parallel_count 4 [1, 2, 3, 4, 5, 6, 7, 8, 9, 10] is_divisible_by_7 3
               = ([Worker 0 0 3, Worker 1 3 6, Worker 2 6 10], Inr 1)"
    by code_simp
  have hyps: "([1, 2, 3, 4, 5, 6, 7, 8, 9, 10] :: int list) \<noteq> []" "(2::int) \<le> 3"
    "(3::nat) = min (nat 3) (unat (4 :: 32 word))" "(1::nat) \<le> 3"
    "(10::nat) = length ([1, 2, 3, 4, 5, 6, 7, 8, 9, 10] :: int list)"
    by simp_all
  note part = block_partition [OF hyps, of is_divisible_by_7]
  have len: "length (fst (custom_parallel_count 4 [1, 2, 3, 4, 5, 6, 7, 8, 9, 10] is_divisible_by_7 3)) = 3"
    using part by (elim conjE)
  have cover: "concat (map (\<lambda>w. [captured_start w..<captured_end w])
         (fst (custom_parallel_count 4 [1, 2, 3, 4, 5, 6, 7, 8, 9, 10] is_divisible_by_7 3)))
       = [0..<10]"
    using part by (elim conjE)
  have made: "fst (custom_parallel_count 4 [1, 2, 3, 4, 5, 6, 7, 8, 9, 10] is_divisible_by_7 3)
       = [Worker 0 0 3, Worker 1 3 6, Worker 2 6 10]"
    using run by simp
  show ?thesis by (intro conjI hyps made len cover)
qed

text \<open>
  C4. When the sequence is empty or the requested thread count is at most 1,
  \<open>custom_parallel_count\<close> creates no thread and returns the sequential count; on the
  empty sequence it returns 0 for every thread count and predicate.
\<close>

theorem fallback_without_threads:
  assumes "xs = [] \<or> K \<le> 1"
  shows "custom_parallel_count hw xs p K = ([], Inr (count_if xs p))
         \<and> custom_parallel_count hw [] p K = ([], Inr 0)"
  using assms by (auto simp: custom_parallel_count_def)

theorem fallback_without_threads_witness:
  "(([7, 3, 14] :: int list) = [] \<or> (1::int) \<le> 1)
   \<and> custom_parallel_count 8 [7, 3, 14] is_divisible_by_7 1 = ([], Inr 2)
   \<and> custom_parallel_count 8 [] is_divisible_by_7 1 = ([], Inr 0)"
proof -
  have "count_if [7, 3, 14] is_divisible_by_7 = 2" by code_simp
  then show ?thesis
    using fallback_without_threads [of "[7, 3, 14]" 1 8 is_divisible_by_7] by simp
qed

text \<open>
  C5. For a non-empty sequence and a requested thread count \<open>K \<ge> 2\<close>, the number of
  workers \<open>custom_parallel_count\<close> creates is the minimum of \<open>K\<close> and the reported
  hardware concurrency, so never more than the hardware concurrency. (At a reported
  concurrency of 0 that number is 0: the call faults before it creates a thread.)
\<close>

theorem effective_thread_count:
  assumes "xs \<noteq> []" "2 \<le> K"
  shows "length (fst (custom_parallel_count hw xs p K)) = min (nat K) (unat hw)
         \<and> length (fst (custom_parallel_count hw xs p K)) \<le> unat hw"
proof (cases "unat hw = 0")
  case True
  then show ?thesis using assms by (simp add: custom_parallel_count_no_hardware)
next
  case False
  then have "0 < unat hw" by simp
  then show ?thesis using assms by (simp add: custom_parallel_count_threads)
qed

theorem effective_thread_count_witness:
  "([1, 2, 3, 4, 5, 6, 7, 8, 9, 10] :: int list) \<noteq> [] \<and> (2::int) \<le> 8
   \<and> length (fst (custom_parallel_count 4 [1, 2, 3, 4, 5, 6, 7, 8, 9, 10] is_divisible_by_7 8)) = 4
   \<and> length (fst (custom_parallel_count 4 [1, 2, 3, 4, 5, 6, 7, 8, 9, 10] is_divisible_by_7 8)) \<le> 4"
  using effective_thread_count [of "[1, 2, 3, 4, 5, 6, 7, 8, 9, 10]" 8 4 is_divisible_by_7]
  by simp

text \<open>
  C10. For a non-empty sequence of length \<open>L\<close> and an effective thread count
  \<open>T > L\<close>, the first \<open>T - 1\<close> workers get the empty block \<open>[0, 0)\<close>, the last worker
  gets the whole sequence, and the call returns the sequential count.
\<close>

theorem more_threads_than_elements:
  assumes "xs \<noteq> []" "2 \<le> K" "T = min (nat K) (unat hw)" "length xs < T"
  shows "custom_parallel_count hw xs p K =
           (map (\<lambda>i. Worker i 0 0) [0..<T - 1] @ [Worker (T - 1) 0 (length xs)],
            Inr (count_if xs p))
         \<and> block xs 0 0 = [] \<and> block xs 0 (length xs) = xs"
proof -
  have T: "0 < T" and hw: "0 < unat hw" using assms by auto
  have bs: "length xs div T = 0" using assms by simp
  have "[0..<T] = [0..<T - 1] @ [T - 1]"
    using T by (metis Suc_diff_1 upt_Suc_append zero_le)
  then have "map (planned (length xs) T 0) [0..<T]
               = map (planned (length xs) T 0) [0..<T - 1] @ [planned (length xs) T 0 (T - 1)]"
    by (metis list.simps(8,9) map_append)
  also have "\<dots> = map (\<lambda>i. Worker i 0 0) [0..<T - 1] @ [Worker (T - 1) 0 (length xs)]"
    by (simp add: planned_def)
  finally show ?thesis
    using custom_parallel_count_threads [OF assms(1,2) hw assms(3), of p] bs
    by (simp add: block_def)
qed

theorem more_threads_than_elements_witness:
  "([1, 7] :: int list) \<noteq> [] \<and> (2::int) \<le> 5 \<and> (5::nat) = min (nat 5) (unat (8 :: 32 word))
   \<and> length ([1, 7] :: int list) < 5
   \<and> custom_parallel_count 8 [1, 7] is_divisible_by_7 5 =
       ([Worker 0 0 0, Worker 1 0 0, Worker 2 0 0, Worker 3 0 0, Worker 4 0 2], Inr 1)"
proof -
  have c: "count_if [1, 7] is_divisible_by_7 = 1" by code_simp
  have u: "[0..<4] = [0, 1, 2, 3]" by code_simp
  show ?thesis
    using more_threads_than_elements [of "[1, 7]" 5 5 8 is_divisible_by_7] c u by simp
qed

text \<open>
  C9. The divisor of line 36 is not positive on every call: with a reported hardware
  concurrency of 0, a one-element sequence and 2 requested threads, the clamped thread
  count is 0 and the call ends in a division by zero.
\<close>

theorem zero_divisor_at_no_hardware:
  "min (nat 2) (unat (0 :: 32 word)) = 0
   \<and> custom_parallel_count 0 [1] is_greater_than_500k 2 = ([], Inl DivisionByZero)"
  by (simp add: custom_parallel_count_def)

text \<open>
  C1. The count is not returned on every call: with a reported hardware concurrency of
  0, the sequence 600000, 1 and 3 requested threads, the sequential count is 1 and the
  call ends in a division by zero.
\<close>

theorem count_lost_at_no_hardware:
  "snd (custom_parallel_count 0 [600000, 1] is_greater_than_500k 3) = Inl DivisionByZero
   \<and> count_if [600000, 1] is_greater_than_500k = 1"
  by (simp add: custom_parallel_count_def is_greater_than_500k_def)

section \<open>The experiment runner\<close>

subsection \<open>The sweep and the best thread count\<close>

lemma sint_LLONG_MAX: "sint LLONG_MAX = 2 ^ 63 - 1"
  by (simp add: LLONG_MAX_def)

lemma sint_le_LLONG_MAX: "sint (t :: 64 word) \<le> sint LLONG_MAX"
  using sint_lt [of t] by (simp add: sint_LLONG_MAX)

lemma sweep_loop_tracks:
  assumes "sweep_loop hw numbers p clock ht k bt btime printed = Inr (bt', btime', printed')"
  shows "printed' = printed @ map (\<lambda>j. (j, clock j)) [k..2 * ht]
       \<and> (if \<exists>j\<in>{k..2 * ht}. sint (clock j) < sint btime
          then bt' \<in> {k..2 * ht} \<and> btime' = clock bt' \<and> sint btime' < sint btime
             \<and> (\<forall>j\<in>{k..2 * ht}. sint btime' \<le> sint (clock j))
             \<and> (\<forall>j\<in>{k..<bt'}. sint btime' < sint (clock j))
          else bt' = bt \<and> btime' = btime)"
  using assms
proof (induction "nat (2 * ht + 1 - k)" arbitrary: k bt btime printed)
  case 0
  then have "\<not> k \<le> 2 * ht" by simp
  with "0.prems" show ?case by (subst (asm) sweep_loop.simps) simp
next
  case (Suc m)
  then have le: "k \<le> 2 * ht" and m: "m = nat (2 * ht + 1 - (k + 1))" by simp_all
  have up: "[k..2 * ht] = k # [k + 1..2 * ht]" using le by (simp add: upto_rec1)
  have range: "{k..2 * ht} = insert k {k + 1..2 * ht}" using le by auto
  have before: "{k..<bt'} = (if k < bt' then insert k {k + 1..<bt'} else {})" by auto
  show ?case
  proof (cases "clock k <s btime")
    case True
    have rec: "sweep_loop hw numbers p clock ht (k + 1) k (clock k) (printed @ [(k, clock k)])
                 = Inr (bt', btime', printed')"
      using Suc.prems le True by (subst (asm) sweep_loop.simps) (simp add: Let_def split: sum.splits)
    have lt: "sint (clock k) < sint btime" using True by (simp add: word_sless_alt)
    from Suc.hyps(1) [OF m rec] lt show ?thesis
      unfolding up range before by (auto split: if_splits)
  next
    case False
    have rec: "sweep_loop hw numbers p clock ht (k + 1) bt btime (printed @ [(k, clock k)])
                 = Inr (bt', btime', printed')"
      using Suc.prems le False by (subst (asm) sweep_loop.simps) (simp add: Let_def split: sum.splits)
    have ge: "sint btime \<le> sint (clock k)" using False by (simp add: word_sless_alt)
    from Suc.hyps(1) [OF m rec] ge show ?thesis
      unfolding up range before by (auto split: if_splits)
  qed
qed


lemma sweep_loop_total:
  assumes "0 < unat hw"
  shows "\<exists>r. sweep_loop hw numbers p clock ht k bt btime printed = Inr r"
proof (induction "nat (2 * ht + 1 - k)" arbitrary: k bt btime printed)
  case 0
  then have "\<not> k \<le> 2 * ht" by simp
  then show ?case by (subst sweep_loop.simps) simp
next
  case (Suc m)
  then have le: "k \<le> 2 * ht" and m: "m = nat (2 * ht + 1 - (k + 1))" by simp_all
  have call: "snd (custom_parallel_count hw numbers p k) = Inr (count_if numbers p)"
    using assms by (rule custom_parallel_count_returns)
  show ?case
    using le call Suc.hyps(1) [OF m]
    by (subst sweep_loop.simps) (simp add: Let_def)
qed

lemma sint_small:
  assumes "unat (hw :: 32 word) < 2 ^ 30"
  shows "sint hw = int (unat hw)"
proof -
  have "int (unat hw) < int (2 ^ 30)" using assms by (simp only: of_nat_less_iff)
  then have hi: "uint hw < 2 ^ 31" by simp
  have "(0::int) \<le> uint hw" by simp
  then have lo: "- (2 ^ 31) \<le> uint hw" by (rule order_trans [rotated]) simp
  have "signed_take_bit 31 (uint hw) = uint hw"
    using lo hi by (rule signed_take_bit_int_eq_self)
  then show ?thesis by (simp add: sint_uint)
qed

lemma run_experiment_returns:
  assumes "0 < unat hw" "unat hw < 2 ^ 30"
  shows "\<exists>report. run_experiment hw numbers lbl p clock = Inr report \<and> label report = lbl
           \<and> hardware_threads report = int (unat hw)
           \<and> sweep report = map (\<lambda>k. (k, clock k)) [1..2 * int (unat hw)]"
proof -
  define ht where "ht = sint hw"
  have ht: "ht = int (unat hw)" unfolding ht_def using assms(2) by (rule sint_small)
  have pos: "0 < ht" unfolding ht using assms(1) by (simp only: of_nat_0_less_iff)
  have "int (unat hw) < int (2 ^ 30)" using assms(2) by (simp only: of_nat_less_iff)
  then have small: "ht < 2 ^ 30" unfolding ht by (simp only: of_nat_power of_nat_numeral)
  obtain bt btime printed where
    r: "sweep_loop hw numbers p clock ht 1 1 LLONG_MAX [] = Inr (bt, btime, printed)"
    using sweep_loop_total [OF assms(1)] by (metis prod_cases3)
  have printed: "printed = map (\<lambda>k. (k, clock k)) [1..2 * ht]"
    using sweep_loop_tracks [OF r] by simp
  have "run_experiment hw numbers lbl p clock
          = Inr \<lparr>label = lbl, sweep = printed, best_threads = bt, hardware_threads = ht\<rparr>"
    using pos small r unfolding run_experiment_def Let_def ht_def [symmetric] by simp
  then show ?thesis using printed ht by simp
qed

lemma run_experiment_no_hardware:
  assumes "numbers \<noteq> []"
  shows "run_experiment 0 numbers lbl p clock = Inl DivisionByZero"
proof -
  have c1: "snd (custom_parallel_count 0 numbers p 1) = Inr (count_if numbers p)"
    by (simp add: custom_parallel_count_degenerate)
  have c2: "snd (custom_parallel_count 0 numbers p 2) = Inl DivisionByZero"
    using assms by (simp add: custom_parallel_count_no_hardware)
  have "sweep_loop 0 numbers p clock 4 2 bt btime printed = Inl DivisionByZero"
    for bt btime printed
    using c2 by (subst sweep_loop.simps) simp
  then have "sweep_loop 0 numbers p clock 4 1 1 LLONG_MAX [] = Inl DivisionByZero"
    using c1 by (subst sweep_loop.simps) (simp add: Let_def)
  then show ?thesis by (simp add: run_experiment_def)
qed

text \<open>
  C7. In a run of \<open>run_experiment\<close> that ends, the sweep lists the thread counts in
  increasing order from 1, and when it is not empty the reported best thread count is
  in it with a timing \<open>t\<close> that no timing of the sweep is below (timings compared as
  \<open>long long\<close>), and every thread count of the sweep with that same timing is at
  least the reported one: the reported count is the smallest one at the minimum.
\<close>

theorem best_threads_first_minimum:
  assumes "run_experiment hw numbers lbl p clock = Inr report"
  shows "map fst (sweep report) = [1..2 * hardware_threads report]
       \<and> (sweep report \<noteq> [] \<longrightarrow>
            (\<exists>t. (best_threads report, t) \<in> set (sweep report)
               \<and> (\<forall>(k, t') \<in> set (sweep report).
                     sint t \<le> sint t' \<and> (t' = t \<longrightarrow> best_threads report \<le> k))))"
proof -
  define ht where "ht = (if sint hw = 0 then 4 else sint hw)"
  obtain bt btime printed where
    r: "sweep_loop hw numbers p clock ht 1 1 LLONG_MAX [] = Inr (bt, btime, printed)"
    and rep: "report = \<lparr>label = lbl, sweep = printed, best_threads = bt, hardware_threads = ht\<rparr>"
    using assms unfolding run_experiment_def Let_def ht_def
    by (auto split: if_splits sum.splits)
  note tr = sweep_loop_tracks [OF r]
  have printed: "printed = map (\<lambda>j. (j, clock j)) [1..2 * ht]" using tr by simp
  have fsts: "map fst printed = [1..2 * ht]" unfolding printed by (simp add: comp_def)
  have best: "\<exists>t. (bt, t) \<in> set printed
               \<and> (\<forall>(k, t') \<in> set printed. sint t \<le> sint t' \<and> (t' = t \<longrightarrow> bt \<le> k))"
    if ne: "printed \<noteq> []"
  proof (cases "\<exists>j\<in>{1..2 * ht}. sint (clock j) < sint LLONG_MAX")
    case True
    then have f: "bt \<in> {1..2 * ht}" "btime = clock bt"
      "\<forall>j\<in>{1..2 * ht}. sint (clock bt) \<le> sint (clock j)"
      "\<forall>j\<in>{1..<bt}. sint (clock bt) < sint (clock j)"
      using tr by auto
    have "(bt, clock bt) \<in> set printed" using f(1) unfolding printed by auto
    moreover have "sint (clock bt) \<le> sint t' \<and> (t' = clock bt \<longrightarrow> bt \<le> k)"
      if "(k, t') \<in> set printed" for k t'
    proof -
      from that have k: "k \<in> {1..2 * ht}" "t' = clock k" unfolding printed by auto
      have "bt \<le> k" if "clock k = clock bt"
      proof (rule ccontr)
        assume "\<not> bt \<le> k"
        then have "k \<in> {1..<bt}" using k(1) by simp
        then have "sint (clock bt) < sint (clock k)" using f(4) by blast
        then show False using that by simp
      qed
      then show ?thesis using k f(3) by auto
    qed
    ultimately show ?thesis by blast
  next
    case False
    then have b: "bt = 1" "btime = LLONG_MAX" using tr by simp_all
    have all: "clock j = LLONG_MAX" if "j \<in> {1..2 * ht}" for j
    proof -
      have "\<not> sint (clock j) < sint LLONG_MAX" using False that by blast
      then have "sint (clock j) = sint LLONG_MAX"
        using sint_le_LLONG_MAX [of "clock j"] by simp
      then show ?thesis by (rule signed_word_eqI)
    qed
    have "1 \<le> 2 * ht" using ne unfolding printed by (cases "1 \<le> 2 * ht") simp_all
    then have "(1, LLONG_MAX) \<in> set printed" using all [of 1] unfolding printed by force
    moreover have "sint LLONG_MAX \<le> sint t' \<and> (t' = LLONG_MAX \<longrightarrow> 1 \<le> k)"
      if "(k, t') \<in> set printed" for k t'
      using that all unfolding printed by auto
    ultimately show ?thesis unfolding b by blast
  qed
  show ?thesis using fsts best unfolding rep by simp
qed

theorem best_threads_first_minimum_witness:
  "run_experiment 2 [1, 7, 14] ''ties'' is_divisible_by_7 (\<lambda>k. if k = 1 then 9 else 5)
     = Inr \<lparr>label = ''ties'', sweep = [(1, 9), (2, 5), (3, 5), (4, 5)], best_threads = 2,
            hardware_threads = 2\<rparr>
   \<and> (\<exists>t. (2 :: int, t) \<in> set [(1, 9), (2, 5), (3, 5), (4, 5 :: 64 word)]
         \<and> (\<forall>(k :: int, t') \<in> set [(1, 9), (2, 5), (3, 5), (4, 5 :: 64 word)].
               sint t \<le> sint t' \<and> (t' = t \<longrightarrow> (2::int) \<le> k)))"
proof -
  have run: "run_experiment 2 [1, 7, 14] ''ties'' is_divisible_by_7 (\<lambda>k. if k = 1 then 9 else 5)
     = Inr \<lparr>label = ''ties'', sweep = [(1, 9), (2, 5), (3, 5), (4, 5)], best_threads = 2,
            hardware_threads = 2\<rparr>"
    by code_simp
  show ?thesis using best_threads_first_minimum [OF run] run by simp
qed

text \<open>
  C6. The sweep does not reach every thread count when the reported hardware
  concurrency is 0: with the one-element sequence 1 the call with one thread returns,
  the call with two threads ends in a division by zero, and so does the run.
\<close>

theorem sweep_stops_at_no_hardware:
  "run_experiment 0 [1] ''Dataset'' is_divisible_by_7 (\<lambda>k. 0) = Inl DivisionByZero
   \<and> snd (custom_parallel_count 0 [1] is_divisible_by_7 1) = Inr 0
   \<and> snd (custom_parallel_count 0 [1] is_divisible_by_7 2) = Inl DivisionByZero"
  by code_simp

section \<open>The program\<close>

lemma main_loop_returns:
  assumes "0 < unat hw" "unat hw < 2 ^ 30"
  shows "\<exists>reports. main_loop hw generate clock sizes = Inr reports
           \<and> map label reports =
               concat (map (\<lambda>n. [''Dataset N='' @ to_string n @ '', x > 500000'',
                                  ''Dataset N='' @ to_string n @ '', x % 7 == 0'']) sizes)"
proof (induction sizes)
  case Nil
  show ?case by simp
next
  case (Cons n sizes)
  let ?numbers = "generate n (of_nat (n + 100))"
  let ?gt = "''Dataset N='' @ to_string n @ '', x > 500000''"
  let ?dv = "''Dataset N='' @ to_string n @ '', x % 7 == 0''"
  obtain r1 where r1: "run_experiment hw ?numbers ?gt is_greater_than_500k (clock ?gt) = Inr r1"
    "label r1 = ?gt"
    using run_experiment_returns [OF assms, of ?numbers ?gt is_greater_than_500k "clock ?gt"]
    by (elim exE conjE)
  obtain r2 where r2: "run_experiment hw ?numbers ?dv is_divisible_by_7 (clock ?dv) = Inr r2"
    "label r2 = ?dv"
    using run_experiment_returns [OF assms, of ?numbers ?dv is_divisible_by_7 "clock ?dv"]
    by (elim exE conjE)
  obtain rs where rs: "main_loop hw generate clock sizes = Inr rs"
    "map label rs =
       concat (map (\<lambda>n. [''Dataset N='' @ to_string n @ '', x > 500000'',
                          ''Dataset N='' @ to_string n @ '', x % 7 == 0'']) sizes)"
    using Cons.IH by (elim exE conjE)
  have "main_loop hw generate clock (n # sizes) = Inr (r1 # r2 # rs)"
    using r1(1) r2(1) rs(1) by (simp add: Let_def)
  then show ?case using r1(2) r2(2) rs(2) by simp
qed

lemma digit_chars:
  "char_of (48 :: nat) = CHR ''0''" "char_of (49 :: nat) = CHR ''1''"
  "char_of (53 :: nat) = CHR ''5''"
  by code_simp+

lemma main_returns:
  assumes "0 < unat hw" "unat hw < 2 ^ 30"
  shows "\<exists>reports. main hw generate clock = Inr reports
           \<and> map label reports =
               [''Dataset N=100000, x > 500000'', ''Dataset N=100000, x % 7 == 0'',
                ''Dataset N=1000000, x > 500000'', ''Dataset N=1000000, x % 7 == 0'',
                ''Dataset N=5000000, x > 500000'', ''Dataset N=5000000, x % 7 == 0'']"
proof -
  have s1: "to_string 100000 = ''100000''" by (simp add: to_string.simps digit_chars)
  have s2: "to_string 1000000 = ''1000000''" by (simp add: to_string.simps digit_chars)
  have s3: "to_string 5000000 = ''5000000''" by (simp add: to_string.simps digit_chars)
  have labels:
    "concat (map (\<lambda>n. [''Dataset N='' @ to_string n @ '', x > 500000'',
                         ''Dataset N='' @ to_string n @ '', x % 7 == 0'']) data_sizes)
       = [''Dataset N=100000, x > 500000'', ''Dataset N=100000, x % 7 == 0'',
          ''Dataset N=1000000, x > 500000'', ''Dataset N=1000000, x % 7 == 0'',
          ''Dataset N=5000000, x > 500000'', ''Dataset N=5000000, x % 7 == 0'']"
    by (simp add: data_sizes_def s1 s2 s3)
  show ?thesis
    unfolding main_def labels [symmetric] by (rule main_loop_returns [OF assms])
qed

text \<open>
  C3 (amended). With a reported hardware concurrency from 1 to \<open>2^30 - 1\<close>, a run of
  \<open>main\<close> ends with six experiment blocks, not eight: for each of the sizes 100000,
  1000000 and 5000000 one block for \<open>x > 500000\<close> and one for \<open>x % 7 == 0\<close>, in that
  order.
\<close>

theorem six_experiment_blocks:
  assumes "0 < unat hw" "unat hw < 2 ^ 30"
  shows "\<exists>reports. main hw generate clock = Inr reports \<and> length reports = 6
           \<and> map label reports =
               [''Dataset N=100000, x > 500000'', ''Dataset N=100000, x % 7 == 0'',
                ''Dataset N=1000000, x > 500000'', ''Dataset N=1000000, x % 7 == 0'',
                ''Dataset N=5000000, x > 500000'', ''Dataset N=5000000, x % 7 == 0'']"
proof -
  obtain reports where r: "main hw generate clock = Inr reports"
    "map label reports =
               [''Dataset N=100000, x > 500000'', ''Dataset N=100000, x % 7 == 0'',
                ''Dataset N=1000000, x > 500000'', ''Dataset N=1000000, x % 7 == 0'',
                ''Dataset N=5000000, x > 500000'', ''Dataset N=5000000, x % 7 == 0'']"
    using main_returns [OF assms, of generate clock] by (elim exE conjE)
  have "length reports = length (map label reports)" by simp
  also have "\<dots> = 6" unfolding r(2) by simp
  finally have len: "length reports = 6" .
  show ?thesis by (intro exI [of _ reports] conjI r(1) len r(2))
qed

theorem six_experiment_blocks_witness:
  "0 < unat (4 :: 32 word) \<and> unat (4 :: 32 word) < 2 ^ 30
   \<and> (\<exists>reports. main 4 (\<lambda>n seed. replicate n 0) (\<lambda>lbl k. 0) = Inr reports
          \<and> length reports = 6
          \<and> map label reports =
               [''Dataset N=100000, x > 500000'', ''Dataset N=100000, x % 7 == 0'',
                ''Dataset N=1000000, x > 500000'', ''Dataset N=1000000, x % 7 == 0'',
                ''Dataset N=5000000, x > 500000'', ''Dataset N=5000000, x % 7 == 0''])"
proof -
  have h1: "0 < unat (4 :: 32 word)" and h2: "unat (4 :: 32 word) < 2 ^ 30" by simp_all
  show ?thesis by (intro conjI h1 h2 six_experiment_blocks [OF h1 h2])
qed

text \<open>
  C3 as stated fails: the run with a reported hardware concurrency of 4, an all-zero
  generator and an all-zero clock does not end with eight blocks.
\<close>

theorem not_eight_experiment_blocks:
  "\<not> (\<exists>reports. main 4 (\<lambda>n seed. replicate n 0) (\<lambda>lbl k. 0) = Inr reports
          \<and> length reports = 8)"
proof
  assume "\<exists>reports. main 4 (\<lambda>n seed. replicate n 0) (\<lambda>lbl k. 0) = Inr reports
            \<and> length reports = 8"
  then obtain reports where e: "main 4 (\<lambda>n seed. replicate n 0) (\<lambda>lbl k. 0) = Inr reports"
    "length reports = 8" by blast
  have "0 < unat (4 :: 32 word)" "unat (4 :: 32 word) < 2 ^ 30" by simp_all
  from main_returns [OF this, of "\<lambda>n seed. replicate n 0" "\<lambda>lbl k. 0"]
  obtain reports' where r: "main 4 (\<lambda>n seed. replicate n 0) (\<lambda>lbl k. 0) = Inr reports'"
    "map label reports' =
               [''Dataset N=100000, x > 500000'', ''Dataset N=100000, x % 7 == 0'',
                ''Dataset N=1000000, x > 500000'', ''Dataset N=1000000, x % 7 == 0'',
                ''Dataset N=5000000, x > 500000'', ''Dataset N=5000000, x % 7 == 0'']"
    by (elim exE conjE)
  have same: "reports' = reports" using r(1) e(1) by simp
  have labels: "map label reports =
               [''Dataset N=100000, x > 500000'', ''Dataset N=100000, x % 7 == 0'',
                ''Dataset N=1000000, x > 500000'', ''Dataset N=1000000, x % 7 == 0'',
                ''Dataset N=5000000, x > 500000'', ''Dataset N=5000000, x % 7 == 0'']"
    using r(2) unfolding same .
  have "length reports = length (map label reports)" by simp
  also have "\<dots> = 6" unfolding labels by simp
  finally show False using e(2) by simp
qed

section \<open>The generator\<close>

inductive_cases fill_zeroE: "fill_numbers draw rng 0 ys"
inductive_cases fill_SucE: "fill_numbers draw rng (Suc n) ys"

lemma fill_numbers_deterministic:
  assumes det: "\<And>r v1 r1 v2 r2. draw r v1 r1 \<Longrightarrow> draw r v2 r2 \<Longrightarrow> v1 = v2 \<and> r1 = r2"
  shows "fill_numbers draw rng n xs \<Longrightarrow> fill_numbers draw rng n ys \<Longrightarrow> xs = ys"
proof (induction arbitrary: ys rule: fill_numbers.induct)
  case (fill_done rng)
  then show ?case by (auto elim: fill_zeroE)
next
  case (fill_next rng v rng' n vs)
  from fill_next.prems obtain w rng'' ws where
    ys: "ys = w # ws" and d: "draw rng w rng''" and f: "fill_numbers draw rng'' n ws"
    by (auto elim: fill_SucE)
  have "v = w" "rng' = rng''" using det [OF fill_next.hyps(1) d] by simp_all
  then show ?case using fill_next.IH [of ws] f ys by simp
qed

lemma fill_numbers_length: "fill_numbers draw rng n xs \<Longrightarrow> length xs = n"
  by (induction rule: fill_numbers.induct) simp_all

text \<open>
  C8. When seeding the engine and drawing from the distribution are deterministic
  (each leaves one possible engine state and value), two calls of
  \<open>generate_random_vector\<close> with the same length and the same seed return the same
  sequence.
\<close>

theorem generation_deterministic:
  assumes "\<And>seed r1 r2. seed_engine seed r1 \<Longrightarrow> seed_engine seed r2 \<Longrightarrow> r1 = r2"
    and "\<And>r v1 r1 v2 r2. draw r v1 r1 \<Longrightarrow> draw r v2 r2 \<Longrightarrow> v1 = v2 \<and> r1 = r2"
    and "generate_random_vector seed_engine draw n seed xs"
    and "generate_random_vector seed_engine draw n seed ys"
  shows "xs = ys"
proof -
  from assms(3) obtain r1 where r1: "seed_engine seed r1" "fill_numbers draw r1 n xs"
    by (auto elim: generate_random_vector.cases)
  from assms(4) obtain r2 where r2: "seed_engine seed r2" "fill_numbers draw r2 n ys"
    by (auto elim: generate_random_vector.cases)
  have "r1 = r2" using assms(1) r1(1) r2(1) by blast
  then show ?thesis using r1(2) r2(2) by (intro fill_numbers_deterministic [of draw r2 n xs ys] assms(2)) simp_all
qed

theorem generation_deterministic_witness:
  "generate_random_vector lcg_seed lcg_draw 2 3 [0, 1]
   \<and> \<not> generate_random_vector lcg_seed lcg_draw 2 3 [0, 2]"
proof -
  have s: "lcg_seed 3 3" by (simp add: lcg_seed_def)
  have d1: "lcg_draw 3 0 0" and d2: "lcg_draw 0 1 1" by (simp_all add: lcg_draw_def)
  have "fill_numbers lcg_draw 3 (Suc (Suc 0)) [0, 1]"
    by (intro fill_next [of lcg_draw, OF d1] fill_next [of lcg_draw, OF d2] fill_done)
  then have "fill_numbers lcg_draw 3 2 [0, 1]" by (simp only: numeral_2_eq_2)
  with s have g: "generate_random_vector lcg_seed lcg_draw 2 3 [0, 1]" by (rule generated)
  have "False" if b: "generate_random_vector lcg_seed lcg_draw 2 3 [0, 2]"
  proof -
    have "[0, 2] = [0, 1 :: int]"
    proof (rule generation_deterministic [of lcg_seed lcg_draw 2 3])
      show "r1 = r2" if "lcg_seed seed r1" "lcg_seed seed r2" for seed r1 r2
        using that by (simp add: lcg_seed_def)
      show "v1 = v2 \<and> r1 = r2" if "lcg_draw r v1 r1" "lcg_draw r v2 r2" for r v1 r1 v2 r2
        using that by (simp add: lcg_draw_def)
      show "generate_random_vector lcg_seed lcg_draw 2 3 [0, 2]" by (rule b)
      show "generate_random_vector lcg_seed lcg_draw 2 3 [0, 1]" by (rule g)
    qed
    then show False by simp
  qed
  then show ?thesis using g by blast
qed

end
